theory Spec2Isabelle
  imports Main
begin

section \<open>Strings and the character tables\<close>

text \<open>
  The title normaliser of \<^verbatim>\<open>flexget/utils/parsers/parser.py\<close> works on Python
  \<^verbatim>\<open>str\<close> values through \<^verbatim>\<open>str.split\<close>, \<^verbatim>\<open>str.join\<close>, \<^verbatim>\<open>re.escape\<close>,
  \<^verbatim>\<open>re.compile\<close> and \<^verbatim>\<open>re.sub\<close>. A Python string is a sequence of code points; here a
  string is a \<^typ>\<open>string\<close> whose characters stand for the code points 0 to 255, one
  \<^typ>\<open>char\<close> per code point (\<^term>\<open>of_char c\<close> is the code point). The properties of
  the Unicode database that the library consults are tabulated for that range.
\<close>

definition isspace :: "char \<Rightarrow> bool" where
  \<comment> \<open>\<^verbatim>\<open>str.isspace\<close> of one character: what \<^verbatim>\<open>str.split()\<close> separates on.\<close>
  "isspace c =
     (let n = (of_char c :: nat)
      in (9 \<le> n \<and> n \<le> 13) \<or> (28 \<le> n \<and> n \<le> 32) \<or> n = 133 \<or> n = 160)"

definition isalnum :: "char \<Rightarrow> bool" where
  \<comment> \<open>The class \<^verbatim>\<open>[^\W_]\<close>: a word character other than the underscore, that is a
      letter or a numeric character.\<close>
  "isalnum c =
     (let n = (of_char c :: nat)
      in (48 \<le> n \<and> n \<le> 57) \<or> (65 \<le> n \<and> n \<le> 90) \<or> (97 \<le> n \<and> n \<le> 122)
         \<or> n = 170 \<or> n = 178 \<or> n = 179 \<or> n = 181 \<or> n = 185 \<or> n = 186
         \<or> n = 188 \<or> n = 189 \<or> n = 190
         \<or> (192 \<le> n \<and> n \<le> 214) \<or> (216 \<le> n \<and> n \<le> 246) \<or> 248 \<le> n)"

definition tolower :: "char \<Rightarrow> char" where
  \<comment> \<open>The lowercase of one code point, as the regex engine computes it.\<close>
  "tolower c =
     (let n = (of_char c :: nat)
      in if (65 \<le> n \<and> n \<le> 90) \<or> (192 \<le> n \<and> n \<le> 214) \<or> (216 \<le> n \<and> n \<le> 222)
         then char_of (n + 32) else c)"

definition iscased :: "char \<Rightarrow> bool" where
  \<comment> \<open>The code point differs from its lowercase or from its uppercase.\<close>
  "iscased c =
     (let n = (of_char c :: nat)
      in (65 \<le> n \<and> n \<le> 90) \<or> (97 \<le> n \<and> n \<le> 122) \<or> n = 181
         \<or> (192 \<le> n \<and> n \<le> 214) \<or> (216 \<le> n \<and> n \<le> 246) \<or> 248 \<le> n)"

section \<open>Whitespace canonicalisation\<close>

text \<open>
  \<^verbatim>\<open>text.split()\<close> with no argument: skip a run of whitespace, stop at the end of the
  string, otherwise take the characters up to the next whitespace as one piece, and go on.
\<close>

function str_split :: "string \<Rightarrow> string list" where
  "str_split s =
     (let r = dropWhile isspace s
      in if r = [] then []
         else takeWhile (\<lambda>c. \<not> isspace c) r # str_split (dropWhile (\<lambda>c. \<not> isspace c) r))"
  by pat_completeness auto

lemma dropWhile_word_shorter:
  assumes "dropWhile isspace s \<noteq> []"
  shows "length (dropWhile (\<lambda>c. \<not> isspace c) (dropWhile isspace s)) < length s"
proof -
  obtain c cs where r: "dropWhile isspace s = c # cs"
    using assms by (cases "dropWhile isspace s") auto
  have "\<not> isspace c"
    using hd_dropWhile [of isspace s] assms r by simp
  then have "dropWhile (\<lambda>c. \<not> isspace c) (c # cs) = dropWhile (\<lambda>c. \<not> isspace c) cs"
    by simp
  moreover have "length (dropWhile (\<lambda>c. \<not> isspace c) cs) \<le> length cs"
    by (rule length_dropWhile_le)
  moreover have "length (c # cs) \<le> length s"
    using length_dropWhile_le [of isspace s] r by simp
  ultimately show ?thesis using r by simp
qed

termination str_split
  by (relation "measure length") (simp_all add: dropWhile_word_shorter)

declare str_split.simps [simp del]

text \<open>\<^verbatim>\<open>sep.join(pieces)\<close>.\<close>

fun str_join :: "string \<Rightarrow> string list \<Rightarrow> string" where
  "str_join sep [] = []"
| "str_join sep [x] = x"
| "str_join sep (x # y # ys) = x @ sep @ str_join sep (y # ys)"

definition strip_spaces :: "string \<Rightarrow> string" where
  "strip_spaces text = str_join '' '' (str_split text)"

text \<open>
  The canonical form in the words of the specification: leading whitespace is removed, a
  whitespace character followed by whitespace or by the end of the string is removed, and a
  whitespace character followed by another character becomes one space.
\<close>

fun collapse_runs :: "string \<Rightarrow> string" where
  "collapse_runs [] = []"
| "collapse_runs [c] = (if isspace c then [] else [c])"
| "collapse_runs (c # d # cs) =
     (if isspace c then (if isspace d then collapse_runs (d # cs)
                         else CHR '' '' # collapse_runs (d # cs))
      else c # collapse_runs (d # cs))"

definition canonical_spec :: "string \<Rightarrow> string" where
  "canonical_spec s = collapse_runs (dropWhile isspace s)"

section \<open>The regular expression library, as far as the normaliser uses it\<close>

datatype error =
    OverflowError  \<comment> \<open>\<^verbatim>\<open>count\<close> does not fit the machine integer of \<^verbatim>\<open>re.sub\<close>\<close>
  | TemplateError  \<comment> \<open>\<^verbatim>\<open>re.error\<close> or \<^verbatim>\<open>IndexError\<close> raised for the replacement string\<close>
  | PatternError   \<comment> \<open>\<^verbatim>\<open>re.error\<close> raised by \<^verbatim>\<open>re.compile\<close>\<close>
  | Unsupported    \<comment> \<open>pattern syntax outside the part of the library modelled here\<close>

abbreviation BSL :: char where
  "BSL \<equiv> CHR 0x5C"

definition special_chars :: "char list" where
  \<comment> \<open>The characters \<^verbatim>\<open>re.escape\<close> puts a backslash before.\<close>
  "special_chars =
     ''()[]{}?*+-|^$.&~# '' @ [BSL, CHR 0x09, CHR 0x0A, CHR 0x0D, CHR 0x0B, CHR 0x0C]"

definition re_escape :: "string \<Rightarrow> string" where
  "re_escape pattern =
     concat (map (\<lambda>c. if c \<in> set special_chars then [BSL, c] else [c]) pattern)"

definition lookbehind_src :: string where
  "lookbehind_src = ''(?<![^'' @ [BSL] @ ''W_])''"

definition lookahead_src :: string where
  "lookahead_src = ''(?![^'' @ [BSL] @ ''W_])''"

definition re_not_in_word :: "string \<Rightarrow> string" where
  "re_not_in_word regexp = lookbehind_src @ regexp @ lookahead_src"

text \<open>
  The compiled pattern is a sequence of operations. The two assertions are the negative
  lookbehind and the negative lookahead over the class \<^verbatim>\<open>[^\W_]\<close>. With
  \<^verbatim>\<open>re.IGNORECASE\<close> the compiler lowercases a cased literal and the engine compares it with
  the lowercase of the character of the text.
\<close>

datatype op =
    LITERAL char
  | LITERAL_UNI_IGNORE char
  | ASSERT_NOT_BEHIND
  | ASSERT_NOT_AHEAD

definition literal_op :: "bool \<Rightarrow> char \<Rightarrow> op" where
  "literal_op ignorecase c =
     (if ignorecase \<and> iscased c then LITERAL_UNI_IGNORE (tolower c) else LITERAL c)"

definition ascii_alnum :: "char \<Rightarrow> bool" where
  "ascii_alnum c =
     (let n = (of_char c :: nat)
      in (48 \<le> n \<and> n \<le> 57) \<or> (65 \<le> n \<and> n \<le> 90) \<or> (97 \<le> n \<and> n \<le> 122))"

definition parser_special :: "char list" where
  \<comment> \<open>\<^verbatim>\<open>SPECIAL_CHARS\<close> of the pattern parser; the backslash is handled before.\<close>
  "parser_special = ''.[{()*+?^$|''"

definition cons_ok :: "'a \<Rightarrow> error + 'a list \<Rightarrow> error + 'a list" where
  "cons_ok x r = (case r of Inl e \<Rightarrow> Inl e | Inr xs \<Rightarrow> Inr (x # xs))"

text \<open>
  \<^verbatim>\<open>re.compile\<close>: a backslash with a character that is no ASCII letter or digit is that
  character as a literal, a character that is not special is a literal, the two lookaround
  groups are recognised as a whole. Any other syntax is outside this model.
\<close>

function re_compile :: "string \<Rightarrow> bool \<Rightarrow> error + op list" where
  "re_compile [] ignorecase = Inr []"
| "re_compile (c # cs) ignorecase =
     (if c = BSL then
        (case cs of
           [] \<Rightarrow> Inl PatternError
         | d # ds \<Rightarrow>
             if ascii_alnum d then Inl Unsupported
             else cons_ok (literal_op ignorecase d) (re_compile ds ignorecase))
      else if c \<in> set parser_special then
        (if take 11 (c # cs) = lookbehind_src
           then cons_ok ASSERT_NOT_BEHIND (re_compile (drop 10 cs) ignorecase)
         else if take 10 (c # cs) = lookahead_src
           then cons_ok ASSERT_NOT_AHEAD (re_compile (drop 9 cs) ignorecase)
         else Inl Unsupported)
      else cons_ok (literal_op ignorecase c) (re_compile cs ignorecase))"
  by pat_completeness auto
termination
  by (relation "measure (\<lambda>(s, _). length s)") auto

text \<open>
  The engine at position \<open>p\<close> of the string \<open>s\<close>: the position after the match, or no
  match.
\<close>

fun sre_match :: "op list \<Rightarrow> string \<Rightarrow> nat \<Rightarrow> nat option" where
  "sre_match [] s p = Some p"
| "sre_match (LITERAL c # ops) s p =
     (if p < length s \<and> s ! p = c then sre_match ops s (p + 1) else None)"
| "sre_match (LITERAL_UNI_IGNORE c # ops) s p =
     (if p < length s \<and> tolower (s ! p) = c then sre_match ops s (p + 1) else None)"
| "sre_match (ASSERT_NOT_BEHIND # ops) s p =
     (if 1 \<le> p \<and> isalnum (s ! (p - 1)) then None else sre_match ops s p)"
| "sre_match (ASSERT_NOT_AHEAD # ops) s p =
     (if p < length s \<and> isalnum (s ! p) then None else sre_match ops s p)"

text \<open>
  The search for the leftmost match from \<open>start\<close> on. With \<open>must_advance\<close> an empty match
  at \<open>start\<close> itself is refused (the previous match ended there).
\<close>

function sre_search :: "op list \<Rightarrow> string \<Rightarrow> nat \<Rightarrow> bool \<Rightarrow> (nat \<times> nat) option" where
  "sre_search ops s start must_advance =
     (if length s < start then None
      else case sre_match ops s start of
             None \<Rightarrow> sre_search ops s (start + 1) False
           | Some e \<Rightarrow>
               if must_advance \<and> e = start then sre_search ops s (start + 1) False
               else Some (start, e))"
  by pat_completeness auto
termination
  by (relation "measure (\<lambda>(ops, s, start, m). length s + 1 - start)") auto

declare sre_search.simps [simp del]

subsection \<open>The replacement string\<close>

text \<open>
  A replacement string with a backslash is a template. Its tokens are single characters
  and pairs of a backslash and the character after it; a backslash at the very end is an
  error. The patterns built here have no group, so the only reference that can be
  resolved is \<^verbatim>\<open>\g<0>\<close>, the whole match.
\<close>

datatype tok = Ch char | Esc char

fun tokenize :: "string \<Rightarrow> error + tok list" where
  "tokenize [] = Inr []"
| "tokenize [c] = (if c = BSL then Inl TemplateError else Inr [Ch c])"
| "tokenize (c # d # cs) =
     (if c = BSL then cons_ok (Esc d) (tokenize cs) else cons_ok (Ch c) (tokenize (d # cs)))"

datatype titem = TLiteral char | TGroup

fun getuntil :: "tok list \<Rightarrow> (tok list \<times> tok list) option" where
  \<comment> \<open>The tokens up to the next \<^verbatim>\<open>>\<close>, and the tokens after it.\<close>
  "getuntil [] = None"
| "getuntil (t # ts) =
     (if t = Ch (CHR ''>'') then Some ([], ts)
      else case getuntil ts of None \<Rightarrow> None | Some (name, rest) \<Rightarrow> Some (t # name, rest))"

lemma getuntil_shorter [termination_simp]:
  "getuntil ts = Some (name, rest) \<Longrightarrow> length rest < length ts"
  by (induction ts arbitrary: name) (auto split: if_splits option.splits)

definition octdigit :: "char \<Rightarrow> bool" where
  "octdigit c = (let n = (of_char c :: nat) in 48 \<le> n \<and> n \<le> 55)"

definition digit :: "char \<Rightarrow> bool" where
  "digit c = (let n = (of_char c :: nat) in 48 \<le> n \<and> n \<le> 57)"

definition ascii_letter :: "char \<Rightarrow> bool" where
  "ascii_letter c =
     (let n = (of_char c :: nat) in (65 \<le> n \<and> n \<le> 90) \<or> (97 \<le> n \<and> n \<le> 122))"

definition digit_val :: "char \<Rightarrow> nat" where
  "digit_val c = of_char c - 48"

definition escapes :: "(char \<times> char) list" where
  \<comment> \<open>\<^verbatim>\<open>ESCAPES\<close>: the letter after the backslash and the character it stands for.\<close>
  "escapes =
     [(CHR ''a'', CHR 0x07), (CHR ''b'', CHR 0x08), (CHR ''f'', CHR 0x0C),
      (CHR ''n'', CHR 0x0A), (CHR ''r'', CHR 0x0D), (CHR ''t'', CHR 0x09),
      (CHR ''v'', CHR 0x0B), (BSL, BSL)]"

function parse_template :: "tok list \<Rightarrow> error + titem list" where
  "parse_template [] = Inr []"
| "parse_template (Ch c # ts) = cons_ok (TLiteral c) (parse_template ts)"
| "parse_template (Esc c # ts) =
     (if c = CHR ''g'' then
        (case ts of
           [] \<Rightarrow> Inl TemplateError
         | t # ts' \<Rightarrow>
             if t \<noteq> Ch (CHR ''<'') then Inl TemplateError
             else case getuntil ts' of
                    None \<Rightarrow> Inl TemplateError
                  | Some (name, rest) \<Rightarrow>
                      if name \<noteq> [] \<and> (\<forall>t \<in> set name. t = Ch (CHR ''0''))
                      then cons_ok TGroup (parse_template rest)
                      else Inl TemplateError)
      else if c = CHR ''0'' then
        (case ts of
           Ch a # Ch b # ts2 \<Rightarrow>
             if octdigit a \<and> octdigit b
               then cons_ok (TLiteral (char_of (8 * digit_val a + digit_val b)))
                      (parse_template ts2)
             else if octdigit a
               then cons_ok (TLiteral (char_of (digit_val a))) (parse_template (Ch b # ts2))
             else cons_ok (TLiteral (CHR 0x00)) (parse_template ts)
         | Ch a # ts1 \<Rightarrow>
             if octdigit a
               then cons_ok (TLiteral (char_of (digit_val a))) (parse_template ts1)
             else cons_ok (TLiteral (CHR 0x00)) (parse_template ts)
         | _ \<Rightarrow> cons_ok (TLiteral (CHR 0x00)) (parse_template ts))
      else if digit c then
        (case ts of
           Ch a # Ch b # ts2 \<Rightarrow>
             if octdigit c \<and> octdigit a \<and> octdigit b then
               (if 255 < 64 * digit_val c + 8 * digit_val a + digit_val b
                  then Inl TemplateError
                else cons_ok
                       (TLiteral (char_of (64 * digit_val c + 8 * digit_val a + digit_val b)))
                       (parse_template ts2))
             else Inl TemplateError
         | _ \<Rightarrow> Inl TemplateError)
      else case map_of escapes c of
             Some e \<Rightarrow> cons_ok (TLiteral e) (parse_template ts)
           | None \<Rightarrow>
               if ascii_letter c then Inl TemplateError
               else cons_ok (TLiteral BSL) (cons_ok (TLiteral c) (parse_template ts)))"
  by pat_completeness auto
termination
  by (relation "measure length") (auto dest: getuntil_shorter)

definition compile_template :: "string \<Rightarrow> error + titem list" where
  \<comment> \<open>A replacement without a backslash is taken as it is.\<close>
  "compile_template repl =
     (if BSL \<notin> set repl then Inr (map TLiteral repl)
      else case tokenize repl of Inl e \<Rightarrow> Inl e | Inr ts \<Rightarrow> parse_template ts)"

definition expand :: "titem list \<Rightarrow> string \<Rightarrow> string" where
  "expand tmpl m = concat (map (\<lambda>x. case x of TLiteral c \<Rightarrow> [c] | TGroup \<Rightarrow> m) tmpl)"

subsection \<open>Substitution\<close>

lemma sre_match_bounds:
  "sre_match ops s p = Some e \<Longrightarrow> p \<le> length s \<Longrightarrow> p \<le> e \<and> e \<le> length s"
proof (induction ops s p rule: sre_match.induct)
  case (1 s p)
  then show ?case by simp
next
  case (2 c ops s p)
  then show ?case by (auto split: if_splits)
next
  case (3 c ops s p)
  then show ?case by (auto split: if_splits)
next
  case (4 ops s p)
  then show ?case by (auto split: if_splits)
next
  case (5 ops s p)
  then show ?case by (auto split: if_splits)
qed

lemma sre_search_bounds:
  "sre_search ops s start must = Some (b, e) \<Longrightarrow>
     start \<le> b \<and> b \<le> e \<and> e \<le> length s \<and> \<not> (must \<and> b = start \<and> e = b)"
proof (induction ops s start must rule: sre_search.induct)
  case (1 ops s start must)
  note unf = "1.prems" [unfolded sre_search.simps [of ops s start must]]
  show ?case
  proof (cases "length s < start")
    case True
    with unf show ?thesis by simp
  next
    case False
    show ?thesis
    proof (cases "sre_match ops s start")
      case None
      with False unf have "sre_search ops s (start + 1) False = Some (b, e)"
        by simp
      with "1.IH"(1) [OF False None] show ?thesis by auto
    next
      case (Some e')
      show ?thesis
      proof (cases "must \<and> e' = start")
        case True
        with False Some unf have "sre_search ops s (start + 1) False = Some (b, e)"
          by simp
        with "1.IH"(2) [OF False Some True] show ?thesis by auto
      next
        case nadv: False
        with False Some unf have be: "b = start" "e = e'"
          by auto
        from sre_match_bounds [OF Some] False have "start \<le> e' \<and> e' \<le> length s" by simp
        with be nadv show ?thesis by auto
      qed
    qed
  qed
qed

text \<open>
  The loop of \<^verbatim>\<open>re.sub\<close>: while the limit is not reached, search from the end \<open>i\<close> of the
  previous match, copy the text in between, append the expanded replacement; at the end
  copy the rest. The result is the new string and the number of replacements.
\<close>

function pattern_subx ::
  "op list \<Rightarrow> titem list \<Rightarrow> string \<Rightarrow> int \<Rightarrow> nat \<Rightarrow> int \<Rightarrow> bool \<Rightarrow> string \<times> int" where
  "pattern_subx ops tmpl s count i n must_advance =
     (if count \<noteq> 0 \<and> \<not> n < count then (drop i s, n)
      else case sre_search ops s i must_advance of
             None \<Rightarrow> (drop i s, n)
           | Some (b, e) \<Rightarrow>
               (case pattern_subx ops tmpl s count e (n + 1) (e = b) of
                  (r, m) \<Rightarrow>
                    (take (b - i) (drop i s) @ expand tmpl (take (e - b) (drop b s)) @ r, m)))"
  by pat_completeness auto
termination
proof (relation "measure (\<lambda>(ops, tmpl, s, count, i, n, must).
                     2 * (length s + 1 - i) + (if must then 0 else 1))", goal_cases)
  case 1
  then show ?case by simp
next
  case (2 ops tmpl s count i n must x b e)
  then have "sre_search ops s i must = Some (b, e)" by simp
  from sre_search_bounds [OF this] show ?case by auto
qed

declare pattern_subx.simps [simp del]

definition re_sub :: "op list \<Rightarrow> string \<Rightarrow> string \<Rightarrow> int \<Rightarrow> error + string" where
  \<comment> \<open>\<^verbatim>\<open>count\<close> is converted to a signed 64-bit integer first.\<close>
  "re_sub pattern repl string count =
     (if count < - (2 ^ 63) \<or> 2 ^ 63 \<le> count then Inl OverflowError
      else case compile_template repl of
             Inl e \<Rightarrow> Inl e
           | Inr tmpl \<Rightarrow> Inr (fst (pattern_subx pattern tmpl string count 0 0 False)))"

section \<open>The operations of the normaliser\<close>

text \<open>
  An argument with a default value is an \<^typ>\<open>'a option\<close>, \<^term>\<open>None\<close> when the caller
  leaves it out: \<^verbatim>\<open>def ireplace(data, old, new, count=0, not_in_word=False)\<close>.
\<close>

definition ireplace ::
  "string \<Rightarrow> string \<Rightarrow> string \<Rightarrow> int option \<Rightarrow> bool option \<Rightarrow> error + string" where
  "ireplace data old new count not_in_word =
     (let count = (case count of None \<Rightarrow> 0 | Some c \<Rightarrow> c);
          not_in_word = (case not_in_word of None \<Rightarrow> False | Some b \<Rightarrow> b);
          old = re_escape old;
          old = (if not_in_word then re_not_in_word old else old)
      in case re_compile old True of
           Inl e \<Rightarrow> Inl e
         | Inr pattern \<Rightarrow> re_sub pattern new data count)"

text \<open>
  \<^verbatim>\<open>def remove_words(text, words, not_in_word=False)\<close>: the loop over the words, then
  the pieces of the text joined by single spaces.
\<close>

fun remove_loop :: "string \<Rightarrow> string list \<Rightarrow> bool \<Rightarrow> error + string" where
  "remove_loop text [] not_in_word = Inr text"
| "remove_loop text (word # words) not_in_word =
     (case ireplace text word [] None (Some not_in_word) of
        Inl e \<Rightarrow> Inl e
      | Inr text' \<Rightarrow> remove_loop text' words not_in_word)"

definition remove_words :: "string \<Rightarrow> string list \<Rightarrow> bool option \<Rightarrow> error + string" where
  "remove_words text words not_in_word =
     (let not_in_word = (case not_in_word of None \<Rightarrow> False | Some b \<Rightarrow> b)
      in case remove_loop text words not_in_word of
           Inl e \<Rightarrow> Inl e
         | Inr text' \<Rightarrow> Inr (str_join '' '' (str_split text')))"

text \<open>
  The compiled pattern of \<^verbatim>\<open>ireplace\<close> for a search term, as the lemmas on
  \<^const>\<open>re_compile\<close> below show: the literals of the term, between the two assertions when
  boundaries are enforced.
\<close>

definition ireplace_ops :: "string \<Rightarrow> bool \<Rightarrow> op list" where
  "ireplace_ops old not_in_word =
     (if not_in_word then ASSERT_NOT_BEHIND # map (literal_op True) old @ [ASSERT_NOT_AHEAD]
      else map (literal_op True) old)"

section \<open>Properties of the whitespace canonicalisation\<close>

lemma str_split_Nil: "str_split [] = []"
  by (simp add: str_split.simps [of "[]"])

lemma str_split_space: "isspace c \<Longrightarrow> str_split (c # cs) = str_split cs"
  by (simp add: str_split.simps [of "c # cs"] str_split.simps [of cs])

lemma str_split_word:
  "\<not> isspace c \<Longrightarrow>
     str_split (c # cs) =
       (c # takeWhile (\<lambda>c. \<not> isspace c) cs) # str_split (dropWhile (\<lambda>c. \<not> isspace c) cs)"
  by (simp add: str_split.simps [of "c # cs"])

lemma str_join_Cons_Cons: "str_join sep ((c # w) # ws) = c # str_join sep (w # ws)"
  by (cases ws) simp_all

lemma str_join_single_rest:
  "str_join sep ([c] # ws) = (if ws = [] then [c] else c # sep @ str_join sep ws)"
  by (cases ws) simp_all

lemma collapse_runs_split:
  "collapse_runs s =
     (if s \<noteq> [] \<and> isspace (hd s) \<and> str_split s \<noteq> []
      then CHR '' '' # str_join '' '' (str_split s)
      else str_join '' '' (str_split s))"
proof (induction s rule: collapse_runs.induct)
  case 1
  show ?case by (simp add: str_split_Nil)
next
  case (2 c)
  show ?case by (simp add: str_split_space str_split_word str_split_Nil)
next
  case (3 c d cs)
  show ?case
  proof (cases "isspace c")
    case c: True
    show ?thesis
    proof (cases "isspace d")
      case True
      with c "3.IH"(1) show ?thesis by (simp add: str_split_space)
    next
      case False
      with c "3.IH"(2) show ?thesis by (simp add: str_split_space str_split_word)
    qed
  next
    case c: False
    show ?thesis
    proof (cases "isspace d")
      case True
      with c "3.IH"(3) show ?thesis
        by (simp add: str_split_word [of c] str_split_space str_join_single_rest)
    next
      case False
      with c "3.IH"(3) show ?thesis
        by (simp add: str_split_word str_join_Cons_Cons)
    qed
  qed
qed

lemma str_split_dropWhile: "str_split (dropWhile isspace s) = str_split s"
  by (induction s) (simp_all add: str_split_space)

lemma strip_spaces_spec: "strip_spaces s = canonical_spec s"
proof -
  let ?r = "dropWhile isspace s"
  have "?r = [] \<or> \<not> isspace (hd ?r)"
    using hd_dropWhile [of isspace s] by blast
  then have "collapse_runs ?r = str_join '' '' (str_split ?r)"
    by (subst collapse_runs_split) auto
  then show ?thesis
    by (simp add: strip_spaces_def canonical_spec_def str_split_dropWhile)
qed


lemma takeWhile_nonspace_pieces:
  "\<forall>c \<in> set (takeWhile (\<lambda>c. \<not> isspace c) r). \<not> isspace c"
  by (induction r) auto

lemma takeWhile_nonspace_nonempty:
  "\<not> isspace c \<Longrightarrow> takeWhile (\<lambda>c. \<not> isspace c) (c # cs) \<noteq> []"
  by simp

lemma str_split_pieces:
  "\<forall>w \<in> set (str_split s). w \<noteq> [] \<and> (\<forall>c \<in> set w. \<not> isspace c)"
proof (induction s rule: str_split.induct)
  case (1 s)
  let ?r = "dropWhile isspace s"
  show ?case
  proof (cases ?r)
    case Nil
    then have "str_split s = []"
      by (subst str_split.simps) (simp only: Let_def refl if_True)
    then show ?thesis by (simp only: list.set ball_empty)
  next
    case (Cons c cs)
    have ne: "?r \<noteq> []" unfolding Cons by simp
    from hd_dropWhile [OF ne] have c: "\<not> isspace c" unfolding Cons list.sel .
    have eq: "str_split s = takeWhile (\<lambda>c. \<not> isspace c) ?r
            # str_split (dropWhile (\<lambda>c. \<not> isspace c) ?r)"
      by (subst str_split.simps) (simp only: Let_def ne if_False)
    have tw: "takeWhile (\<lambda>c. \<not> isspace c) ?r \<noteq> []"
      unfolding Cons using c by (rule takeWhile_nonspace_nonempty)
    have ih: "\<forall>w \<in> set (str_split (dropWhile (\<lambda>c. \<not> isspace c) ?r)).
                w \<noteq> [] \<and> (\<forall>c \<in> set w. \<not> isspace c)"
      by (rule "1.IH" [OF refl ne])
    show ?thesis
    proof
      fix w
      assume "w \<in> set (str_split s)"
      then have "w \<in> set (takeWhile (\<lambda>c. \<not> isspace c) ?r
            # str_split (dropWhile (\<lambda>c. \<not> isspace c) ?r))"
        by (simp only: eq)
      then have "w = takeWhile (\<lambda>c. \<not> isspace c) ?r
            \<or> w \<in> set (str_split (dropWhile (\<lambda>c. \<not> isspace c) ?r))"
        by (simp only: set_simps insert_iff)
      then show "w \<noteq> [] \<and> (\<forall>c \<in> set w. \<not> isspace c)"
      proof
        assume wx: "w = takeWhile (\<lambda>c. \<not> isspace c) ?r"
        show ?thesis
          unfolding wx using tw takeWhile_nonspace_pieces [of ?r] by (rule conjI)
      next
        assume "w \<in> set (str_split (dropWhile (\<lambda>c. \<not> isspace c) ?r))"
        with ih show ?thesis by blast
      qed
    qed
  qed
qed
lemma str_split_piece_append:
  assumes "w \<noteq> []" and "\<forall>c \<in> set w. \<not> isspace c" and "r = [] \<or> isspace (hd r)"
  shows "str_split (w @ r) = w # str_split r"
proof -
  obtain c w' where w: "w = c # w'" using assms(1) by (cases w) auto
  have tw: "takeWhile (\<lambda>c. \<not> isspace c) (w' @ r) = w'"
    using assms(2,3) w by (cases r) (simp_all add: takeWhile_append2)
  have dw: "dropWhile (\<lambda>c. \<not> isspace c) (w' @ r) = dropWhile (\<lambda>c. \<not> isspace c) r"
    using assms(2) w by (simp add: dropWhile_append2)
  have "dropWhile (\<lambda>c. \<not> isspace c) r = r"
    using assms(3) by (cases r) simp_all
  with tw dw w assms(2) show ?thesis
    by (simp add: str_split_word)
qed

lemma str_split_join:
  "\<forall>w \<in> set ws. w \<noteq> [] \<and> (\<forall>c \<in> set w. \<not> isspace c) \<Longrightarrow>
     str_split (str_join '' '' ws) = ws"
proof (induction ws rule: induct_list012)
  case 1
  show ?case by (simp add: str_split_Nil)
next
  case (2 x)
  then show ?case
    using str_split_piece_append [of x "[]"] by (simp add: str_split_Nil)
next
  case (3 x y ys)
  have sp: "isspace (CHR '' '')" by (simp add: isspace_def)
  from "3.prems" have "str_split (x @ CHR '' '' # str_join '' '' (y # ys))
      = x # str_split (CHR '' '' # str_join '' '' (y # ys))"
    by (intro str_split_piece_append) (simp_all add: sp)
  also have "\<dots> = x # str_split (str_join '' '' (y # ys))"
    by (simp add: str_split_space sp)
  also have "\<dots> = x # y # ys" using "3.IH"(2) "3.prems" by simp
  finally show ?case by simp
qed

lemma str_split_strip_spaces: "str_split (strip_spaces s) = str_split s"
  unfolding strip_spaces_def by (rule str_split_join) (rule str_split_pieces)

lemma str_join_eq_Nil:
  "\<forall>w \<in> set ws. w \<noteq> [] \<Longrightarrow> str_join sep ws = [] \<longleftrightarrow> ws = []"
  by (induction sep ws rule: str_join.induct) simp_all

lemma str_split_eq_Nil: "str_split s = [] \<longleftrightarrow> (\<forall>c \<in> set s. isspace c)"
proof -
  have "str_split s = [] \<longleftrightarrow> dropWhile isspace s = []"
    by (simp add: str_split.simps [of s] Let_def)
  then show ?thesis by (simp add: dropWhile_eq_Nil_conv)
qed

text \<open>
  Claim C6. \<^verbatim>\<open>strip_spaces\<close> collapses every run of whitespace into one interior space
  and removes leading and trailing whitespace: joining the pieces of the split by single
  spaces is the canonical form of the specification, the pieces themselves are unchanged,
  the title with two spaces, a tab and a newline becomes \<^verbatim>\<open>The Matrix 1999\<close>, and the
  empty string stays empty.
\<close>

theorem strip_spaces_canonical:
  "strip_spaces s = canonical_spec s
   \<and> str_split (strip_spaces s) = str_split s
   \<and> strip_spaces (''  The   Matrix'' @ [CHR 0x09, CHR 0x0A] @ ''1999  '') = ''The Matrix 1999''
   \<and> strip_spaces [] = []"
proof (intro conjI)
  show "strip_spaces s = canonical_spec s"
    by (rule strip_spaces_spec)
  show "str_split (strip_spaces s) = str_split s"
    by (rule str_split_strip_spaces)
  show "strip_spaces (''  The   Matrix'' @ [CHR 0x09, CHR 0x0A] @ ''1999  '') = ''The Matrix 1999''"
    by code_simp
  show "strip_spaces [] = []"
    by (simp add: strip_spaces_def str_split_Nil)
qed

text \<open>
  Claim C7. Whitespace canonicalisation is idempotent: applying \<^verbatim>\<open>strip_spaces\<close> twice
  gives the result of applying it once, for every string.
\<close>

theorem strip_spaces_idempotent: "strip_spaces (strip_spaces s) = strip_spaces s"
  by (simp add: strip_spaces_def [of "strip_spaces s"] str_split_strip_spaces)
     (simp add: strip_spaces_def)

text \<open>
  Claim C10. \<^verbatim>\<open>strip_spaces\<close> returns the empty string exactly for the strings in which
  every character is whitespace (the empty string among them).
\<close>

theorem strip_spaces_empty_iff:
  "strip_spaces s = [] \<longleftrightarrow> list_all isspace s"
proof -
  have "\<forall>w \<in> set (str_split s). w \<noteq> []" using str_split_pieces [of s] by blast
  then have "strip_spaces s = [] \<longleftrightarrow> str_split s = []"
    unfolding strip_spaces_def by (rule str_join_eq_Nil)
  then show ?thesis by (simp add: str_split_eq_Nil list_all_iff)
qed

section \<open>Properties of pattern compilation and matching\<close>

lemma of_char_tolower:
  "(of_char (tolower c) :: nat) =
     (let n = of_char c
      in if (65 \<le> n \<and> n \<le> 90) \<or> (192 \<le> n \<and> n \<le> 214) \<or> (216 \<le> n \<and> n \<le> 222)
         then n + 32 else n)"
  by (auto simp add: tolower_def Let_def)

lemma tolower_eq_iff:
  "tolower x = tolower c \<longleftrightarrow> (of_char (tolower x) :: nat) = of_char (tolower c)"
  by simp

lemma uncased_tolower_eq:
  assumes "\<not> iscased c"
  shows "tolower x = tolower c \<longleftrightarrow> x = c"
proof -
  have "(of_char (tolower x) :: nat) = of_char (tolower c) \<longleftrightarrow> (of_char x :: nat) = of_char c"
    using assms unfolding of_char_tolower iscased_def Let_def by auto
  then show ?thesis by simp
qed

lemma uncased_tolower: "\<not> iscased c \<Longrightarrow> tolower c = c"
  by (auto simp add: tolower_def iscased_def Let_def)

lemma special_not_alnum: "c \<in> set special_chars \<Longrightarrow> \<not> ascii_alnum c"
  by (auto simp add: special_chars_def ascii_alnum_def)

lemma parser_special_subset: "c \<in> set parser_special \<Longrightarrow> c \<in> set special_chars"
  by (auto simp add: special_chars_def parser_special_def)

lemma BSL_special: "BSL \<in> set special_chars"
  by (simp add: special_chars_def)

lemma re_escape_Cons:
  "re_escape (c # cs) = (if c \<in> set special_chars then [BSL, c] else [c]) @ re_escape cs"
  by (simp add: re_escape_def)

lemma cons_ok_case:
  "cons_ok x (case r of Inl e \<Rightarrow> Inl e | Inr ops \<Rightarrow> Inr (f ops)) =
     (case r of Inl e \<Rightarrow> Inl e | Inr ops \<Rightarrow> Inr (x # f ops))"
  by (cases r) (simp_all add: cons_ok_def)

lemma re_compile_escape_append:
  "re_compile (re_escape old @ sfx) ic =
     (case re_compile sfx ic of
        Inl e \<Rightarrow> Inl e
      | Inr ops \<Rightarrow> Inr (map (literal_op ic) old @ ops))"
proof (induction old)
  case Nil
  show ?case by (cases "re_compile sfx ic") (simp_all add: re_escape_def)
next
  case (Cons c cs)
  show ?case
  proof (cases "c \<in> set special_chars")
    case True
    then have "\<not> ascii_alnum c" by (rule special_not_alnum)
    with True Cons.IH show ?thesis
      by (simp add: re_escape_Cons cons_ok_case split: sum.splits)
  next
    case False
    then have "c \<noteq> BSL" "c \<notin> set parser_special"
      using BSL_special parser_special_subset by auto
    with False Cons.IH show ?thesis
      by (simp add: re_escape_Cons cons_ok_case split: sum.splits)
  qed
qed

lemma re_compile_escape:
  "re_compile (re_escape old) ic = Inr (map (literal_op ic) old)"
  using re_compile_escape_append [of old "[]" ic] by simp

lemma re_compile_lookahead: "re_compile lookahead_src ic = Inr [ASSERT_NOT_AHEAD]"
  by (simp add: lookahead_src_def lookbehind_src_def parser_special_def cons_ok_def)

lemma re_compile_lookbehind:
  "re_compile (lookbehind_src @ rest) ic = cons_ok ASSERT_NOT_BEHIND (re_compile rest ic)"
  by (simp add: lookbehind_src_def parser_special_def)

lemma re_compile_not_in_word:
  "re_compile (re_not_in_word (re_escape old)) ic =
     Inr (ASSERT_NOT_BEHIND # map (literal_op ic) old @ [ASSERT_NOT_AHEAD])"
  by (simp add: re_not_in_word_def re_compile_lookbehind re_compile_escape_append
        re_compile_lookahead cons_ok_def)

lemma sre_match_literal_op:
  "sre_match (literal_op True c # ops) s p =
     (if p < length s \<and> tolower (s ! p) = tolower c then sre_match ops s (p + 1) else None)"
proof (cases "iscased c")
  case True
  then show ?thesis by (simp add: literal_op_def)
next
  case False
  then show ?thesis by (simp add: literal_op_def uncased_tolower_eq)
qed

lemma take_drop_step:
  "p < length s \<Longrightarrow> take (Suc n) (drop p s) = s ! p # take n (drop (Suc p) s)"
  by (simp add: Cons_nth_drop_Suc [symmetric])

lemma sre_match_literals:
  "p \<le> length s \<Longrightarrow>
   sre_match (map (literal_op True) old @ ops) s p =
     (if p + length old \<le> length s
         \<and> map tolower (take (length old) (drop p s)) = map tolower old
      then sre_match ops s (p + length old) else None)"
proof (induction old arbitrary: p)
  case Nil
  then show ?case by simp
next
  case (Cons c cs)
  show ?case
  proof (cases "p < length s")
    case True
    then have "p + 1 \<le> length s" by simp
    from True Cons.IH [OF this] show ?thesis
      by (simp only: list.map append_Cons sre_match_literal_op take_drop_step
            length_Cons)
         auto
  next
    case False
    then show ?thesis
      by (simp only: list.map append_Cons sre_match_literal_op) simp
  qed
qed

lemma sre_match_not_in_word:
  "p \<le> length s \<Longrightarrow>
   sre_match (ASSERT_NOT_BEHIND # map (literal_op True) old @ [ASSERT_NOT_AHEAD]) s p = Some e
     \<longleftrightarrow>
   (e = p + length old \<and> e \<le> length s
     \<and> map tolower (take (length old) (drop p s)) = map tolower old
     \<and> (p = 0 \<or> \<not> isalnum (s ! (p - 1)))
     \<and> (e = length s \<or> \<not> isalnum (s ! e)))"
  by (simp only: sre_match.simps sre_match_literals) (auto split: if_splits)

lemma sre_search_match:
  "sre_search ops s start must = Some (b, e) \<Longrightarrow> sre_match ops s b = Some e"
proof (induction ops s start must rule: sre_search.induct)
  case (1 ops s start must)
  note unf = "1.prems" [unfolded sre_search.simps [of ops s start must]]
  show ?case
  proof (cases "length s < start")
    case True
    with unf show ?thesis by simp
  next
    case False
    show ?thesis
    proof (cases "sre_match ops s start")
      case None
      with False unf have "sre_search ops s (start + 1) False = Some (b, e)"
        by simp
      with "1.IH"(1) [OF False None] show ?thesis by simp
    next
      case (Some e')
      show ?thesis
      proof (cases "must \<and> e' = start")
        case True
        with False Some unf have "sre_search ops s (start + 1) False = Some (b, e)"
          by simp
        with "1.IH"(2) [OF False Some True] show ?thesis by simp
      next
        case nadv: False
        with False Some unf have "b = start" "e = e'"
          by auto
        with Some show ?thesis by simp
      qed
    qed
  qed
qed

lemma literal_op_tolower:
  "tolower c = tolower d \<Longrightarrow> literal_op True c = literal_op True d"
proof (cases "iscased c")
  case True
  assume eq: "tolower c = tolower d"
  have "iscased d"
  proof (rule ccontr)
    assume "\<not> iscased d"
    with eq have "c = d" by (simp add: uncased_tolower_eq)
    with True \<open>\<not> iscased d\<close> show False by simp
  qed
  with True eq show ?thesis by (simp add: literal_op_def)
next
  case False
  assume "tolower c = tolower d"
  then have "tolower d = tolower c" by simp
  with False have "d = c" by (simp add: uncased_tolower_eq)
  then show ?thesis by simp
qed

lemma literal_ops_tolower:
  "map tolower old = map tolower old' \<Longrightarrow>
     map (literal_op True) old = map (literal_op True) old'"
proof (induction old arbitrary: old')
  case Nil
  then show ?case by simp
next
  case (Cons c cs)
  then obtain d ds where old': "old' = d # ds" by (cases old') auto
  with Cons.prems have "tolower c = tolower d" "map tolower cs = map tolower ds" by simp_all
  with Cons.IH [of ds] literal_op_tolower [of c d] old' show ?case by simp
qed

section \<open>Properties of the substitution loop\<close>

lemma expand_Nil: "expand [] m = []"
  by (simp add: expand_def)

lemma pattern_subx_stop:
  "count \<noteq> 0 \<and> \<not> n < count \<Longrightarrow> pattern_subx ops tmpl s count i n must = (drop i s, n)"
  by (subst pattern_subx.simps) simp

lemma pattern_subx_none:
  "\<not> (count \<noteq> 0 \<and> \<not> n < count) \<Longrightarrow> sre_search ops s i must = None \<Longrightarrow>
     pattern_subx ops tmpl s count i n must = (drop i s, n)"
  by (subst pattern_subx.simps) auto

lemma pattern_subx_some:
  "\<not> (count \<noteq> 0 \<and> \<not> n < count) \<Longrightarrow> sre_search ops s i must = Some (b, e) \<Longrightarrow>
   pattern_subx ops tmpl s count e (n + 1) (e = b) = (r, m) \<Longrightarrow>
     pattern_subx ops tmpl s count i n must =
       (take (b - i) (drop i s) @ expand tmpl (take (e - b) (drop b s)) @ r, m)"
  by (subst pattern_subx.simps) auto

lemma pattern_subx_length:
  "tmpl = [] \<Longrightarrow> length (fst (pattern_subx ops tmpl s count i n must)) \<le> length s - i"
proof (induction ops tmpl s count i n must rule: pattern_subx.induct)
  case (1 ops tmpl s count i n must)
  show ?case
  proof (cases "count \<noteq> 0 \<and> \<not> n < count")
    case True
    then show ?thesis by (simp add: pattern_subx_stop)
  next
    case lim: False
    show ?thesis
    proof (cases "sre_search ops s i must")
      case None
      with lim show ?thesis by (simp add: pattern_subx_none)
    next
      case (Some be)
      obtain b e where be: "be = (b, e)" by (cases be)
      obtain r m where rm: "pattern_subx ops tmpl s count e (n + 1) (e = b) = (r, m)"
        by (cases "pattern_subx ops tmpl s count e (n + 1) (e = b)")
      from Some be have srch: "sre_search ops s i must = Some (b, e)" by simp
      from sre_search_bounds [OF srch] have bnd: "i \<le> b" "b \<le> e" "e \<le> length s" by simp_all
      from "1.IH" [OF lim srch refl "1.prems"] rm have "length r \<le> length s - e" by simp
      moreover have "fst (pattern_subx ops tmpl s count i n must) = take (b - i) (drop i s) @ r"
        using pattern_subx_some [OF lim srch rm] "1.prems" by (simp add: expand_Nil)
      ultimately show ?thesis using bnd by simp
    qed
  qed
qed




lemma ireplace_unfold:
  "ireplace data old new count flag =
     re_sub (ireplace_ops old (case flag of None \<Rightarrow> False | Some b \<Rightarrow> b)) new data
       (case count of None \<Rightarrow> 0 | Some c \<Rightarrow> c)"
  by (simp add: ireplace_def ireplace_ops_def Let_def re_compile_escape re_compile_not_in_word)

lemma re_sub_plain:
  "BSL \<notin> set repl \<Longrightarrow> - (2 ^ 63) \<le> count \<Longrightarrow> count < 2 ^ 63 \<Longrightarrow>
     re_sub p repl s count = Inr (fst (pattern_subx p (map TLiteral repl) s count 0 0 False))"
  by (simp add: re_sub_def compile_template_def)

lemma ireplace_remove:
  "ireplace data old [] None flag =
     Inr (fst (pattern_subx (ireplace_ops old (case flag of None \<Rightarrow> False | Some b \<Rightarrow> b))
                 [] data 0 0 0 False))"
  by (simp add: ireplace_unfold re_sub_plain)

lemma ireplace_remove_empty: "ireplace [] old [] None flag = Inr []"
proof -
  have "length (fst (pattern_subx (ireplace_ops old (case flag of None \<Rightarrow> False | Some b \<Rightarrow> b))
                 [] [] 0 0 0 False)) \<le> length ([] :: string) - 0"
    by (rule pattern_subx_length) simp
  then show ?thesis by (simp add: ireplace_remove)
qed

lemma remove_loop_ok: "\<exists>t. remove_loop text words b = Inr t"
  by (induction words arbitrary: "text") (simp_all add: ireplace_remove)

lemma remove_loop_empty: "remove_loop [] words b = Inr []"
  by (induction words) (simp_all add: ireplace_remove_empty)






section \<open>Matching and replacement\<close>

text \<open>
  Claim C1, as the code has it. With \<^verbatim>\<open>not_in_word=True\<close> the pattern of a term always
  compiles, and it matches at a position exactly when the text there equals the term up to
  case, the character before the occurrence is absent or is no letter and no numeric
  character, and the character after it is absent or is no letter and no numeric character;
  every match the search of the substitution finds has these two neighbours. The underscore
  is neither, so a term next to an underscore is matched.
\<close>

theorem not_in_word_match:
  assumes "p \<le> length s"
  shows "\<not> isl (re_compile (re_not_in_word (re_escape old)) True)
     \<and> (sre_match (projr (re_compile (re_not_in_word (re_escape old)) True)) s p = Some e
          \<longleftrightarrow>
        (e = p + length old \<and> e \<le> length s
         \<and> map tolower (take (length old) (drop p s)) = map tolower old
         \<and> (p = 0 \<or> \<not> isalnum (s ! (p - 1)))
         \<and> (e = length s \<or> \<not> isalnum (s ! e))))
     \<and> (sre_search (projr (re_compile (re_not_in_word (re_escape old)) True)) s start must
            = Some (b, e')
          \<longrightarrow> (b = 0 \<or> \<not> isalnum (s ! (b - 1))) \<and> (e' = length s \<or> \<not> isalnum (s ! e')))
     \<and> \<not> isalnum (CHR ''_'')"
proof (intro conjI)
  show "\<not> isl (re_compile (re_not_in_word (re_escape old)) True)"
    by (simp add: re_compile_not_in_word)
  show "sre_match (projr (re_compile (re_not_in_word (re_escape old)) True)) s p = Some e
          \<longleftrightarrow>
        (e = p + length old \<and> e \<le> length s
         \<and> map tolower (take (length old) (drop p s)) = map tolower old
         \<and> (p = 0 \<or> \<not> isalnum (s ! (p - 1)))
         \<and> (e = length s \<or> \<not> isalnum (s ! e)))"
    unfolding re_compile_not_in_word sum.sel
    by (rule sre_match_not_in_word [OF assms])
  show "sre_search (projr (re_compile (re_not_in_word (re_escape old)) True)) s start must
            = Some (b, e')
          \<longrightarrow> (b = 0 \<or> \<not> isalnum (s ! (b - 1))) \<and> (e' = length s \<or> \<not> isalnum (s ! e'))"
    unfolding re_compile_not_in_word sum.sel
  proof
    let ?ops = "ASSERT_NOT_BEHIND # map (literal_op True) old @ [ASSERT_NOT_AHEAD]"
    assume found: "sre_search ?ops s start must = Some (b, e')"
    from sre_search_bounds [OF found] have "b \<le> length s" by simp
    from iffD1 [OF sre_match_not_in_word [OF this] sre_search_match [OF found]]
    show "(b = 0 \<or> \<not> isalnum (s ! (b - 1))) \<and> (e' = length s \<or> \<not> isalnum (s ! e'))"
      by blast
  qed
  show "\<not> isalnum (CHR ''_'')"
    by (simp add: isalnum_def)
qed

theorem not_in_word_match_witness:
  "(2::nat) \<le> length ''a se''
   \<and> sre_match (projr (re_compile (re_not_in_word (re_escape ''SE'')) True)) ''a se'' 2 = Some 4"
proof -
  have h: "(2::nat) \<le> length ''a se''" by simp
  have "map tolower (take (length ''SE'') (drop 2 ''a se'')) = map tolower ''SE''"
    by code_simp
  moreover have "\<not> isalnum (''a se'' ! (2 - 1))"
    by code_simp
  ultimately show ?thesis
    using h not_in_word_match [OF h, of "''SE''" 4] by simp
qed

text \<open>
  The term \<^verbatim>\<open>se\<close> between two underscores is matched and removed.
\<close>

theorem underscore_is_boundary_counterexample:
  "ireplace ''_se_'' ''se'' [] None (Some True) = Inr ''__''"
  by code_simp

text \<open>
  Claim C2, as the code has it. \<^verbatim>\<open>remove_words\<close> called without the flag behaves as with
  \<^verbatim>\<open>not_in_word=False\<close>: no word boundary is enforced by default, as for
  \<^verbatim>\<open>ireplace\<close>.
\<close>

theorem remove_words_default_flag:
  "remove_words text words None = remove_words text words (Some False)
   \<and> ireplace data old new count None = ireplace data old new count (Some False)"
proof (intro conjI)
  show "remove_words text words None = remove_words text words (Some False)"
    by (simp add: remove_words_def)
  show "ireplace data old new count None = ireplace data old new count (Some False)"
    by (simp add: ireplace_def)
qed

text \<open>
  Without the flag \<^verbatim>\<open>se\<close> is removed from inside \<^verbatim>\<open>Season\<close>; with
  \<^verbatim>\<open>not_in_word=True\<close> it is not.
\<close>

theorem remove_words_default_counterexample:
  "remove_words ''Season'' [''se''] None \<noteq> remove_words ''Season'' [''se''] (Some True)
   \<and> remove_words ''Season'' [''se''] None = Inr ''ason''
   \<and> remove_words ''Season'' [''se''] (Some True) = Inr ''Season''"
proof -
  have a: "remove_words ''Season'' [''se''] None = Inr ''ason''" by code_simp
  have b: "remove_words ''Season'' [''se''] (Some True) = Inr ''Season''" by code_simp
  show ?thesis unfolding a b by simp
qed

text \<open>
  Claim C3, as the code has it. \<^verbatim>\<open>re_not_in_word\<close> and \<^verbatim>\<open>strip_spaces\<close> are total
  functions on strings. \<^verbatim>\<open>remove_words\<close> returns a string for every text, word list
  and flag. \<^verbatim>\<open>ireplace\<close> returns a string whenever the replacement has no backslash and
  \<^verbatim>\<open>count\<close> is left out or fits a signed 64-bit integer. The empty text gives the empty
  result for \<^verbatim>\<open>strip_spaces\<close>, for \<^verbatim>\<open>remove_words\<close>, and for \<^verbatim>\<open>ireplace\<close> with the empty
  replacement. With no words \<^verbatim>\<open>remove_words\<close> returns the canonical form of the text.
\<close>

theorem operations_return_strings:
  "\<not> isl (remove_words text words flag)
   \<and> (BSL \<notin> set new \<and> - (2 ^ 63) \<le> count \<and> count < 2 ^ 63
        \<longrightarrow> \<not> isl (ireplace data old new (Some count) flag))
   \<and> (BSL \<notin> set new \<longrightarrow> \<not> isl (ireplace data old new None flag))
   \<and> strip_spaces [] = []
   \<and> remove_words [] words flag = Inr []
   \<and> ireplace [] old [] None flag = Inr []
   \<and> remove_words text [] flag = Inr (strip_spaces text)
   \<and> remove_words ''  A   B  '' [] None = Inr ''A B''"
proof (intro conjI)
  show "\<not> isl (remove_words text words flag)"
    using remove_loop_ok [of "text" words "case flag of None \<Rightarrow> False | Some b \<Rightarrow> b"]
    by (auto simp add: remove_words_def)
  show "BSL \<notin> set new \<and> - (2 ^ 63) \<le> count \<and> count < 2 ^ 63
        \<longrightarrow> \<not> isl (ireplace data old new (Some count) flag)"
    by (simp add: ireplace_unfold re_sub_plain)
  show "BSL \<notin> set new \<longrightarrow> \<not> isl (ireplace data old new None flag)"
    by (simp add: ireplace_unfold re_sub_plain)
  show "strip_spaces [] = []"
    by (simp add: strip_spaces_def str_split_Nil)
  show "remove_words [] words flag = Inr []"
    by (simp add: remove_words_def remove_loop_empty str_split_Nil)
  show "ireplace [] old [] None flag = Inr []"
    by (rule ireplace_remove_empty)
  show "remove_words text [] flag = Inr (strip_spaces text)"
    by (simp add: remove_words_def strip_spaces_def)
  show "remove_words ''  A   B  '' [] None = Inr ''A B''"
    by code_simp
qed

theorem operations_return_strings_witness:
  "BSL \<notin> set ''-'' \<and> - (2 ^ 63) \<le> (5::int) \<and> (5::int) < 2 ^ 63
   \<and> \<not> isl (ireplace ''a.b'' ''.'' ''-'' (Some 5) (Some True))
   \<and> \<not> isl (ireplace ''a.b'' ''.'' ''-'' None (Some True))"
proof -
  have h: "BSL \<notin> set ''-''" by simp
  have c: "- (2 ^ 63) \<le> (5::int) \<and> (5::int) < 2 ^ 63" by simp
  from h c operations_return_strings [of "[]" "[]" "Some True" "''-''" 5 "''a.b''" "''.''"]
  show ?thesis by simp
qed

text \<open>
  A replacement that is a single backslash raises, a \<^verbatim>\<open>count\<close> of \<open>2\<^sup>6\<^sup>3\<close> raises, and
  the empty text with the empty term and the replacement \<^verbatim>\<open>x\<close> gives \<^verbatim>\<open>x\<close>.
\<close>

theorem replacement_raises_counterexample:
  "ireplace ''x'' ''y'' [BSL] None None = Inl TemplateError
   \<and> ireplace ''x'' ''y'' [] (Some (2 ^ 63)) None = Inl OverflowError
   \<and> ireplace [] [] ''x'' None None = Inr ''x''"
proof (intro conjI)
  show "ireplace ''x'' ''y'' [BSL] None None = Inl TemplateError"
    by code_simp
  show "ireplace ''x'' ''y'' [] (Some (2 ^ 63)) None = Inl OverflowError"
    by (simp add: ireplace_unfold re_sub_def)
  show "ireplace [] [] ''x'' None None = Inr ''x''"
    by code_simp
qed

text \<open>
  Claim C4. Search terms are matched as literals: every character of the escaped term
  compiles to a literal operation, with or without the boundary assertions around it. With
  boundaries enforced, removing \<^verbatim>\<open>x.264\<close> leaves \<^verbatim>\<open>Movie.x264.Title\<close> unchanged and
  turns \<^verbatim>\<open>Movie.x.264.Title\<close> into \<^verbatim>\<open>Movie..Title\<close>.
\<close>

theorem literal_token_safety:
  "ireplace ''Movie.x264.Title'' ''x.264'' [] None (Some True) = Inr ''Movie.x264.Title''
   \<and> ireplace ''Movie.x.264.Title'' ''x.264'' [] None (Some True) = Inr ''Movie..Title''
   \<and> re_compile (re_escape old) True = Inr (map (literal_op True) old)
   \<and> re_compile (re_not_in_word (re_escape old)) True =
       Inr (ASSERT_NOT_BEHIND # map (literal_op True) old @ [ASSERT_NOT_AHEAD])"
proof (intro conjI)
  show "ireplace ''Movie.x264.Title'' ''x.264'' [] None (Some True) = Inr ''Movie.x264.Title''"
    by code_simp
  show "ireplace ''Movie.x.264.Title'' ''x.264'' [] None (Some True) = Inr ''Movie..Title''"
    by code_simp
  show "re_compile (re_escape old) True = Inr (map (literal_op True) old)"
    by (rule re_compile_escape)
  show "re_compile (re_not_in_word (re_escape old)) True =
       Inr (ASSERT_NOT_BEHIND # map (literal_op True) old @ [ASSERT_NOT_AHEAD])"
    by (rule re_compile_not_in_word)
qed



text \<open>
  Claim C8. Two search terms that differ only in the case of their characters (the same
  length, and the same lowercase character at every position) give the same result of
  \<^verbatim>\<open>ireplace\<close>, for every text, replacement, count and flag.
\<close>

theorem ireplace_term_case:
  assumes "map tolower old = map tolower old'"
  shows "ireplace data old new count not_in_word = ireplace data old' new count not_in_word"
proof -
  have ops: "map (literal_op True) old = map (literal_op True) old'"
    using assms by (rule literal_ops_tolower)
  have a: "re_compile (re_escape old) True = re_compile (re_escape old') True"
    by (simp only: re_compile_escape ops)
  have b: "re_compile (re_not_in_word (re_escape old)) True
             = re_compile (re_not_in_word (re_escape old')) True"
    by (simp only: re_compile_not_in_word ops)
  show ?thesis
    unfolding ireplace_def Let_def using a b by (cases not_in_word) auto
qed

theorem ireplace_term_case_witness:
  "map tolower ''PROPER'' = map tolower ''proper''
   \<and> ireplace ''Show.Name.PROPER.720p'' ''PROPER'' [] None None
       = ireplace ''Show.Name.PROPER.720p'' ''proper'' [] None None
   \<and> ireplace ''Show.Name.PROPER.720p'' ''proper'' [] None None = Inr ''Show.Name..720p''"
proof -
  have h: "map tolower ''PROPER'' = map tolower ''proper''" by code_simp
  have v: "ireplace ''Show.Name.PROPER.720p'' ''proper'' [] None None = Inr ''Show.Name..720p''"
    by code_simp
  from h v ireplace_term_case [OF h, of "''Show.Name.PROPER.720p''" "[]" None None]
  show ?thesis by (intro conjI)
qed



end
